theory Spec2Isabelle
  imports Complex_Main "HOL-Library.Word"
begin

section \<open>Floating-point values and correctly rounded arithmetic\<close>

text \<open>
  The two routines of \<^verbatim>\<open>src/c_ext/rms.c\<close> compute in C's \<^verbatim>\<open>double\<close> and
  \<^verbatim>\<open>float\<close>, that is IEEE 754 binary64 and binary32 in the default rounding mode
  (round to nearest, ties to even). A floating-point value is modelled by the rational
  number it denotes, or one of the three special values. The two zeros of IEEE 754 are
  one value here (\<open>Fin 0\<close>): C's comparison does not tell them apart, and the only
  divisors of the program are \<^verbatim>\<open>(double)n\<close> with \<open>n \<ge> 1\<close> and \<^verbatim>\<open>32768.0f\<close>.
\<close>

datatype fp = Fin rat | PosInf | NegInf | NaN

text \<open>
  A binary format: \<open>prec\<close> is the number of significand bits (the hidden bit included),
  \<open>emin\<close> and \<open>emax\<close> the exponents of the smallest and largest normal binade.
\<close>

record format =
  prec :: nat
  emin :: int
  emax :: int

definition binary32 :: format where
  "binary32 = \<lparr>prec = 24, emin = - 126, emax = 127\<rparr>"

definition binary64 :: format where
  "binary64 = \<lparr>prec = 53, emin = - 1022, emax = 1023\<rparr>"

text \<open>
  \<open>ilog2 x\<close> is the exponent of the binade of a positive \<open>x\<close>: the integer \<open>e\<close> with
  \<open>2\<^sup>e \<le> x < 2\<^sup>e\<^sup>+\<^sup>1\<close>, found by doubling or halving \<open>x\<close> into \<open>[1, 2)\<close>.
\<close>

function ilog2 :: "rat \<Rightarrow> int" where
  "ilog2 x = (if x \<le> 0 then 0
              else if x < 1 then ilog2 (2 * x) - 1
              else if 2 \<le> x then ilog2 (x / 2) + 1
              else 0)"
  by pat_completeness auto
termination
proof (relation "measure (\<lambda>x. 2 * nat \<lceil>1 / x\<rceil> + nat \<lfloor>x\<rfloor>)", goal_cases)
  case 1
  show ?case by simp
next
  case (2 x)
  then have pos: "0 < x" and lt: "x < 1" by simp_all
  have f1: "\<lfloor>2 * x\<rfloor> \<le> 1" using lt by (simp add: floor_le_iff)
  have "1 < 1 / x" using pos lt by simp
  then have c2: "2 \<le> \<lceil>1 / x\<rceil>" by (simp add: le_ceiling_iff)
  then have "\<lceil>1 / x\<rceil> \<le> 2 * (\<lceil>1 / x\<rceil> - 1)" by simp
  then have "(of_int \<lceil>1 / x\<rceil> :: rat) \<le> of_int (2 * (\<lceil>1 / x\<rceil> - 1))"
    by (simp only: of_int_le_iff)
  then have h: "(of_int \<lceil>1 / x\<rceil> :: rat) / 2 \<le> of_int (\<lceil>1 / x\<rceil> - 1)" by simp
  have "1 / (2 * x) = (1 / x) / 2" by simp
  also have "\<dots> \<le> of_int \<lceil>1 / x\<rceil> / 2" by (simp add: divide_right_mono)
  also note h
  finally have c3: "\<lceil>1 / (2 * x)\<rceil> \<le> \<lceil>1 / x\<rceil> - 1" by (simp only: ceiling_le_iff)
  have "2 * nat \<lceil>1 / (2 * x)\<rceil> + nat \<lfloor>2 * x\<rfloor> < 2 * nat \<lceil>1 / x\<rceil> + nat \<lfloor>x\<rfloor>"
    using f1 c2 c3 by linarith
  then show ?case by simp
next
  case (3 x)
  then have ge: "2 \<le> x" by simp
  have "0 < 1 / x" "1 / x \<le> 1" using ge by simp_all
  then have c1: "\<lceil>1 / x\<rceil> = 1" by (simp only: ceiling_eq_iff) simp
  have "0 < 2 / x" "2 / x \<le> 1" using ge by simp_all
  then have c2: "\<lceil>2 / x\<rceil> = 1" by (simp only: ceiling_eq_iff) simp
  have c3: "1 / (x / 2) = 2 / x" by simp
  have "x < of_int \<lfloor>x\<rfloor> + 1" by linarith
  moreover have "(2::rat) \<le> of_int \<lfloor>x\<rfloor>" using ge by simp
  ultimately have "x / 2 < of_int \<lfloor>x\<rfloor>" by linarith
  then have "\<lfloor>x / 2\<rfloor> < \<lfloor>x\<rfloor>" by (simp only: floor_less_iff)
  moreover have "2 \<le> \<lfloor>x\<rfloor>" using ge by simp
  ultimately have "2 * nat \<lceil>1 / (x / 2)\<rceil> + nat \<lfloor>x / 2\<rfloor> < 2 * nat \<lceil>1 / x\<rceil> + nat \<lfloor>x\<rfloor>"
    unfolding c3 c1 c2 by linarith
  then show ?case by simp
qed

declare ilog2.simps [simp del]

text \<open>Rounding a rational to the nearest integer, a tie going to the even neighbour.\<close>

definition rne :: "rat \<Rightarrow> int" where
  "rne q = (let f = \<lfloor>q\<rfloor>; d = q - of_int f in
     if d < 1 / 2 then f
     else if 1 / 2 < d then f + 1
     else if even f then f else f + 1)"

text \<open>
  Rounding a rational to a format. The spacing \<open>u\<close> of the format's values around \<open>x\<close>
  is \<open>2\<^sup>e\<^sup>-\<^sup>p\<^sup>+\<^sup>1\<close> for \<open>x\<close> in the binade \<open>e\<close>, and that of the lowest normal binade for
  the subnormal range; the result is the multiple of \<open>u\<close> nearest to \<open>x\<close>, and an infinity
  once that reaches \<open>2\<^sup>e\<^sup>m\<^sup>a\<^sup>x\<^sup>+\<^sup>1\<close>.
\<close>

definition round_to :: "format \<Rightarrow> rat \<Rightarrow> fp" where
  "round_to fmt x =
     (let e = max (ilog2 \<bar>x\<bar>) (emin fmt);
          u = 2 powi (e - int (prec fmt) + 1);
          r = of_int (rne (x / u)) * u
      in if 2 powi (emax fmt + 1) \<le> \<bar>r\<bar>
         then (if 0 < x then PosInf else NegInf)
         else Fin r)"

text \<open>The integer square root, two bits of the argument for each bit of the result.\<close>

fun isqrt :: "nat \<Rightarrow> nat" where
  "isqrt n = (if n < 2 then n
              else let r = 2 * isqrt (n div 4) in
                   if (r + 1) * (r + 1) \<le> n then r + 1 else r)"

declare isqrt.simps [simp del]

text \<open>
  The correctly rounded square root of a rational \<open>x \<ge> 0\<close>: with \<open>u\<close> the spacing of the
  format around \<open>\<surd>x\<close>, the integer part \<open>f\<close> of \<open>\<surd>x / u\<close> is the integer square root of
  \<open>x / u\<^sup>2\<close>, and \<open>\<surd>x / u\<close> is compared with \<open>f + 1/2\<close> by comparing the squares.
\<close>

definition round_sqrt :: "format \<Rightarrow> rat \<Rightarrow> fp" where
  "round_sqrt fmt x =
     (let e = max (ilog2 x div 2) (emin fmt);
          u = 2 powi (e - int (prec fmt) + 1);
          y = x / (u * u);
          f = int (isqrt (nat \<lfloor>y\<rfloor>));
          h = (of_int f + 1 / 2) * (of_int f + 1 / 2);
          m = (if y < h then f else if h < y then f + 1
               else if even f then f else f + 1);
          r = of_int m * u
      in if 2 powi (emax fmt + 1) \<le> r then PosInf else Fin r)"

subsection \<open>The operations of the program\<close>

text \<open>
  Each operation on finite operands is the exact operation on the rationals followed by
  one rounding; the other equations are the rules of IEEE 754 for infinities and NaNs.
  A zero divisor counts as \<open>+0\<close>.
\<close>

fun fp_add :: "format \<Rightarrow> fp \<Rightarrow> fp \<Rightarrow> fp" where
  "fp_add fmt (Fin x) (Fin y) = round_to fmt (x + y)"
| "fp_add fmt NaN _ = NaN"
| "fp_add fmt _ NaN = NaN"
| "fp_add fmt PosInf NegInf = NaN"
| "fp_add fmt NegInf PosInf = NaN"
| "fp_add fmt PosInf _ = PosInf"
| "fp_add fmt _ PosInf = PosInf"
| "fp_add fmt NegInf _ = NegInf"
| "fp_add fmt _ NegInf = NegInf"

fun fp_mul :: "format \<Rightarrow> fp \<Rightarrow> fp \<Rightarrow> fp" where
  "fp_mul fmt (Fin x) (Fin y) = round_to fmt (x * y)"
| "fp_mul fmt NaN _ = NaN"
| "fp_mul fmt _ NaN = NaN"
| "fp_mul fmt (Fin x) PosInf = (if x = 0 then NaN else if 0 < x then PosInf else NegInf)"
| "fp_mul fmt (Fin x) NegInf = (if x = 0 then NaN else if 0 < x then NegInf else PosInf)"
| "fp_mul fmt PosInf (Fin y) = (if y = 0 then NaN else if 0 < y then PosInf else NegInf)"
| "fp_mul fmt NegInf (Fin y) = (if y = 0 then NaN else if 0 < y then NegInf else PosInf)"
| "fp_mul fmt PosInf PosInf = PosInf"
| "fp_mul fmt NegInf NegInf = PosInf"
| "fp_mul fmt PosInf NegInf = NegInf"
| "fp_mul fmt NegInf PosInf = NegInf"

fun fp_div :: "format \<Rightarrow> fp \<Rightarrow> fp \<Rightarrow> fp" where
  "fp_div fmt (Fin x) (Fin y) =
     (if y = 0 then (if x = 0 then NaN else if 0 < x then PosInf else NegInf)
      else round_to fmt (x / y))"
| "fp_div fmt NaN _ = NaN"
| "fp_div fmt _ NaN = NaN"
| "fp_div fmt (Fin x) PosInf = Fin 0"
| "fp_div fmt (Fin x) NegInf = Fin 0"
| "fp_div fmt PosInf (Fin y) = (if 0 \<le> y then PosInf else NegInf)"
| "fp_div fmt NegInf (Fin y) = (if 0 \<le> y then NegInf else PosInf)"
| "fp_div fmt PosInf PosInf = NaN"
| "fp_div fmt NegInf NegInf = NaN"
| "fp_div fmt PosInf NegInf = NaN"
| "fp_div fmt NegInf PosInf = NaN"

fun fp_sqrt :: "format \<Rightarrow> fp \<Rightarrow> fp" where
  "fp_sqrt fmt (Fin x) = (if x < 0 then NaN else round_sqrt fmt x)"
| "fp_sqrt fmt PosInf = PosInf"
| "fp_sqrt fmt NegInf = NaN"
| "fp_sqrt fmt NaN = NaN"

text \<open>C's \<^verbatim>\<open><=\<close> on floating-point values: false as soon as an operand is a NaN.\<close>

fun fp_le :: "fp \<Rightarrow> fp \<Rightarrow> bool" where
  "fp_le (Fin x) (Fin y) = (x \<le> y)"
| "fp_le NaN _ = False"
| "fp_le _ NaN = False"
| "fp_le NegInf _ = True"
| "fp_le _ PosInf = True"
| "fp_le PosInf _ = False"
| "fp_le _ NegInf = False"

section \<open>The machine types and the memory of a call\<close>

type_synonym int16 = "16 word"
type_synonym c_int = "32 word"

text \<open>The conversions \<^verbatim>\<open>(double)k\<close> and \<^verbatim>\<open>(float)k\<close> of an integer.\<close>

definition d_of_int :: "int \<Rightarrow> fp" where
  "d_of_int k = round_to binary64 (of_int k)"

definition f_of_int :: "int \<Rightarrow> fp" where
  "f_of_int k = round_to binary32 (of_int k)"

text \<open>
  A call sees two objects: the buffer behind \<^verbatim>\<open>samples\<close> and the buffer behind
  \<^verbatim>\<open>out\<close>. They are modelled as distinct objects: \<^verbatim>\<open>int16_t\<close> and \<^verbatim>\<open>float\<close> are
  incompatible types, so an element stored through \<^verbatim>\<open>out\<close> may not be read through
  \<^verbatim>\<open>samples\<close>, and the caller of the routines passes two buffers of its own. An
  access outside an object is undefined behaviour in C; it is the result \<open>None\<close> of the
  model.
\<close>

record mem =
  samples :: "int16 list"
  out :: "fp list"

definition load_sample :: "mem \<Rightarrow> c_int \<Rightarrow> int16 option" where
  "load_sample m i =
     (if 0 \<le> sint i \<and> nat (sint i) < length (samples m)
      then Some (samples m ! nat (sint i)) else None)"

definition store_out :: "mem \<Rightarrow> c_int \<Rightarrow> fp \<Rightarrow> mem option" where
  "store_out m i v =
     (if 0 \<le> sint i \<and> nat (sint i) < length (out m)
      then Some (m\<lparr>out := (out m)[nat (sint i) := v]\<rparr>) else None)"

section \<open>\<^verbatim>\<open>vox_rms_int16\<close>\<close>

text \<open>
  \<^verbatim>\<open>for (int i = 0; i < n; i++) { double s = (double)samples[i]; sum += s * s; }\<close>
  The counter is a 32-bit \<^verbatim>\<open>int\<close>; \<open>i + 1\<close> is the addition of the machine.
\<close>

function rms_loop :: "mem \<Rightarrow> c_int \<Rightarrow> c_int \<Rightarrow> fp \<Rightarrow> fp option" where
  "rms_loop m n i acc =
     (if sint i < sint n then
        (case load_sample m i of
           None \<Rightarrow> None
         | Some x \<Rightarrow>
             (let s = d_of_int (sint x)
              in rms_loop m n (i + 1) (fp_add binary64 acc (fp_mul binary64 s s))))
      else Some acc)"
  by pat_completeness auto
termination
proof (relation "measure (\<lambda>(m, n, i, acc). nat (sint n - sint i))", goal_cases)
  case 1
  show ?case by simp
next
  case (2 m n i acc x s)
  have "sint n < 2 ^ (LENGTH(32) - 1)" by (rule sint_lt)
  moreover have "- (2 ^ (LENGTH(32) - 1)) \<le> sint i" by (rule sint_ge)
  ultimately have "sint (i + 1) = sint i + 1"
    using 2(1) by (simp add: sint_word_ariths signed_take_bit_int_eq_self)
  then show ?case using 2(1) by simp
qed

declare rms_loop.simps [simp del]

definition vox_rms_int16 :: "mem \<Rightarrow> c_int \<Rightarrow> (fp \<times> mem) option" where
  "vox_rms_int16 m n =
     (if sint n \<le> 0 then Some (Fin 0, m)
      else (case rms_loop m n 0 (Fin 0) of
              None \<Rightarrow> None
            | Some acc \<Rightarrow> Some (fp_sqrt binary64 (fp_div binary64 acc (d_of_int (sint n))), m)))"

section \<open>\<^verbatim>\<open>vox_pcm_to_float32\<close>\<close>

text \<open>\<^verbatim>\<open>for (int i = 0; i < n; i++) { out[i] = (float)samples[i] / 32768.0f; }\<close>\<close>

function pcm_loop :: "mem \<Rightarrow> c_int \<Rightarrow> c_int \<Rightarrow> mem option" where
  "pcm_loop m n i =
     (if sint i < sint n then
        (case load_sample m i of
           None \<Rightarrow> None
         | Some x \<Rightarrow>
             (case store_out m i (fp_div binary32 (f_of_int (sint x)) (Fin 32768)) of
                None \<Rightarrow> None
              | Some m' \<Rightarrow> pcm_loop m' n (i + 1)))
      else Some m)"
  by pat_completeness auto
termination
proof (relation "measure (\<lambda>(m, n, i). nat (sint n - sint i))", goal_cases)
  case 1
  show ?case by simp
next
  case (2 m n i x m')
  have "sint n < 2 ^ (LENGTH(32) - 1)" by (rule sint_lt)
  moreover have "- (2 ^ (LENGTH(32) - 1)) \<le> sint i" by (rule sint_ge)
  ultimately have "sint (i + 1) = sint i + 1"
    using 2(1) by (simp add: sint_word_ariths signed_take_bit_int_eq_self)
  then show ?case using 2(1) by simp
qed

declare pcm_loop.simps [simp del]

definition vox_pcm_to_float32 :: "mem \<Rightarrow> c_int \<Rightarrow> mem option" where
  "vox_pcm_to_float32 m n = (if sint n \<le> 0 then Some m else pcm_loop m n 0)"

section \<open>The formulas of the specification\<close>

text \<open>
  One step of the accumulation: the square of the sample, formed and added in binary64.
\<close>

definition sq_step :: "fp \<Rightarrow> int16 \<Rightarrow> fp" where
  "sq_step acc x = fp_add binary64 acc (fp_mul binary64 (d_of_int (sint x)) (d_of_int (sint x)))"

text \<open>
  The specification's \<^verbatim>\<open>sqrt(sum(s_i^2 for s_i in S) / N)\<close>, the sum accumulated in
  binary64 from \<open>0.0\<close> in the order of the buffer, then one division and one square root.
\<close>

definition sum_squares :: "int16 list \<Rightarrow> fp" where
  "sum_squares S = foldl sq_step (Fin 0) S"

definition rms_formula :: "int16 list \<Rightarrow> fp" where
  "rms_formula S =
     fp_sqrt binary64 (fp_div binary64 (sum_squares S) (d_of_int (int (length S))))"

text \<open>The value \<^verbatim>\<open>(float)s / 32768.0f\<close> that the converter writes for a sample \<open>s\<close>.\<close>

definition pcm_sample :: "int16 \<Rightarrow> fp" where
  "pcm_sample x = fp_div binary32 (f_of_int (sint x)) (Fin 32768)"

section \<open>Properties of the rounding\<close>

lemma ilog2_bounds:
  "0 < x \<Longrightarrow> 2 powi ilog2 x \<le> x \<and> x < 2 powi (ilog2 x + 1)"
proof (induction x rule: ilog2.induct)
  case (1 x)
  show ?case
  proof (cases "x < 1")
    case True
    with 1 have ih: "2 powi ilog2 (2 * x) \<le> 2 * x \<and> 2 * x < 2 powi (ilog2 (2 * x) + 1)"
      by simp
    have e: "ilog2 x = ilog2 (2 * x) - 1" using True 1(3) by (subst ilog2.simps) simp
    show ?thesis using ih unfolding e
      by (simp add: power_int_diff power_int_add)
  next
    case False
    show ?thesis
    proof (cases "2 \<le> x")
      case True
      with False 1 have ih: "2 powi ilog2 (x / 2) \<le> x / 2 \<and> x / 2 < 2 powi (ilog2 (x / 2) + 1)"
        by simp
      have e: "ilog2 x = ilog2 (x / 2) + 1" using True False 1(3) by (subst ilog2.simps) simp
      show ?thesis using ih unfolding e
        by (simp add: power_int_diff power_int_add)
    next
      case F2: False
      have e: "ilog2 x = 0" using False F2 1(3) by (subst ilog2.simps) simp
      show ?thesis using False F2 unfolding e by simp
    qed
  qed
qed

lemma ilog2_zero: "ilog2 0 = 0"
  by (subst ilog2.simps) simp

lemma ilog2_less:
  assumes "0 < x" "x < 2 powi k"
  shows "ilog2 x < k"
proof (rule ccontr)
  assume "\<not> ilog2 x < k"
  then have "k \<le> ilog2 x" by simp
  then have "(2::rat) powi k \<le> 2 powi ilog2 x" by (rule power_int_increasing) simp
  also have "\<dots> \<le> x" using ilog2_bounds [OF assms(1)] by simp
  finally show False using assms(2) by simp
qed

text \<open>The floor of a quotient of two numerals, for evaluating \<open>rne\<close> on concrete values.\<close>

lemma floor_rat_numeral: "\<lfloor>(numeral a :: rat) / numeral b\<rfloor> = numeral a div numeral b"
  using floor_divide_of_int_eq [of "numeral a" "numeral b", where ?'a = rat] by simp

lemma rne_of_int: "rne (of_int z) = z"
  by (simp add: rne_def)

lemma rne_nonneg: "0 \<le> q \<Longrightarrow> 0 \<le> rne q"
  by (auto simp: rne_def Let_def)

text \<open>\<open>rne\<close> is within one half of its argument, and never passes an integer.\<close>

lemma rne_nearest: "\<bar>of_int (rne q) - q\<bar> \<le> 1 / 2"
proof -
  have "of_int \<lfloor>q\<rfloor> \<le> q" "q < of_int \<lfloor>q\<rfloor> + 1" by linarith+
  then show ?thesis unfolding rne_def Let_def by (auto simp: abs_le_iff)
qed

lemma rne_le_int:
  assumes "q \<le> of_int N"
  shows "rne q \<le> N"
proof (cases "\<lfloor>q\<rfloor> < N")
  case True
  have "rne q \<le> \<lfloor>q\<rfloor> + 1" by (simp add: rne_def Let_def)
  with True show ?thesis by simp
next
  case False
  moreover have "\<lfloor>q\<rfloor> \<le> N" using assms by (simp add: floor_le_iff)
  ultimately have fl: "\<lfloor>q\<rfloor> = N" by simp
  have "of_int \<lfloor>q\<rfloor> \<le> q" by simp
  with assms fl have "q = of_int N" by simp
  then show ?thesis by (simp add: rne_of_int)
qed

lemma round_to_zero: "round_to fmt 0 = Fin 0"
  by (simp add: round_to_def rne_def Let_def not_le)

lemma round_to_exact:
  assumes x: "x = of_int z * 2 powi j"
    and z: "\<bar>z\<bar> < 2 ^ prec fmt"
    and lo: "emin fmt - int (prec fmt) + 1 \<le> j"
    and hi: "j + int (prec fmt) \<le> emax fmt + 1"
  shows "round_to fmt x = Fin x"
proof (cases "x = 0")
  case True
  then show ?thesis by (simp add: round_to_zero)
next
  case False
  define p where "p = int (prec fmt)"
  define e where "e = max (ilog2 \<bar>x\<bar>) (emin fmt)"
  define d where "d = j - (e - p + 1)"
  have "\<bar>x\<bar> = of_int \<bar>z\<bar> * 2 powi j" using x by (simp add: abs_mult)
  also have "\<dots> < 2 ^ prec fmt * 2 powi j"
  proof -
    have "(of_int \<bar>z\<bar> :: rat) < of_int (2 ^ prec fmt)" using z by (simp only: of_int_less_iff)
    then show ?thesis by simp
  qed
  also have "\<dots> = 2 powi (p + j)" by (simp add: p_def power_int_add)
  finally have ub: "\<bar>x\<bar> < 2 powi (p + j)" .
  have "0 < \<bar>x\<bar>" using False by simp
  then have "ilog2 \<bar>x\<bar> < p + j" using ub by (rule ilog2_less)
  then have "e \<le> p + j - 1" using lo by (simp add: e_def p_def)
  then have d0: "0 \<le> d" by (simp add: d_def)
  have j: "j = (e - p + 1) + d" by (simp add: d_def)
  have "2 powi j = (2::rat) powi (e - p + 1) * 2 powi d"
    by (subst j) (simp add: power_int_add)
  also have "(2::rat) powi d = of_int (2 ^ nat d)" using d0 by (simp add: power_int_def)
  finally have q: "x / 2 powi (e - p + 1) = of_int (z * 2 ^ nat d)"
    and r: "of_int (z * 2 ^ nat d) * 2 powi (e - p + 1) = x"
    using x by simp_all
  have "2 powi (p + j) \<le> (2::rat) powi (emax fmt + 1)"
    using hi by (intro power_int_increasing) (simp_all add: p_def)
  then have nov: "\<not> 2 powi (emax fmt + 1) \<le> \<bar>x\<bar>" using ub by simp
  show ?thesis
    unfolding round_to_def e_def [symmetric] p_def [symmetric] Let_def q rne_of_int r
    using nov by simp
qed

text \<open>
  The rounded value is within half a spacing of the argument, and rounding never passes
  a value of the format: what is at most a representable \<open>B\<close> rounds to at most \<open>B\<close>.
\<close>

lemma round_to_nearest:
  assumes "round_to fmt x = Fin r"
  shows "\<bar>r - x\<bar> \<le> 2 powi (max (ilog2 \<bar>x\<bar>) (emin fmt) - int (prec fmt) + 1) / 2"
proof -
  define u :: rat where "u = 2 powi (max (ilog2 \<bar>x\<bar>) (emin fmt) - int (prec fmt) + 1)"
  have u: "0 < u" by (simp add: u_def)
  have r: "r = of_int (rne (x / u)) * u"
    using assms unfolding round_to_def Let_def u_def [symmetric] by (simp split: if_splits)
  have "r - x = (of_int (rne (x / u)) - x / u) * u"
    using u by (simp add: r field_simps)
  then have "\<bar>r - x\<bar> = \<bar>of_int (rne (x / u)) - x / u\<bar> * u"
    using u by (simp add: abs_mult)
  also have "\<dots> \<le> 1 / 2 * u" using u rne_nearest [of "x / u"] by (intro mult_right_mono) simp_all
  finally show ?thesis by (simp add: u_def)
qed

lemma round_to_le:
  assumes x: "0 \<le> x" "x \<le> B"
    and B: "B = of_int z * 2 powi j"
    and z: "\<bar>z\<bar> < 2 ^ prec fmt"
    and lo: "emin fmt - int (prec fmt) + 1 \<le> j"
    and hi: "j + int (prec fmt) \<le> emax fmt + 1"
  shows "\<exists>r. round_to fmt x = Fin r \<and> 0 \<le> r \<and> r \<le> B"
proof (cases "x = 0")
  case True
  then show ?thesis using x by (simp add: round_to_zero)
next
  case False
  then have pos: "0 < x" using x by simp
  define p where "p = int (prec fmt)"
  define e where "e = max (ilog2 \<bar>x\<bar>) (emin fmt)"
  define u :: rat where "u = 2 powi (e - p + 1)"
  define d where "d = j - (e - p + 1)"
  have u: "0 < u" by (simp add: u_def)
  have "B = \<bar>B\<bar>" using x by simp
  also have "\<dots> = of_int \<bar>z\<bar> * 2 powi j" using B by (simp add: abs_mult)
  also have "\<dots> < 2 ^ prec fmt * 2 powi j"
  proof -
    have "(of_int \<bar>z\<bar> :: rat) < of_int (2 ^ prec fmt)" using z by (simp only: of_int_less_iff)
    then show ?thesis by simp
  qed
  also have "\<dots> = 2 powi (p + j)" by (simp add: p_def power_int_add)
  finally have ub: "B < 2 powi (p + j)" .
  have "\<bar>x\<bar> < 2 powi (p + j)" using x ub by simp
  moreover have "0 < \<bar>x\<bar>" using pos by simp
  ultimately have "ilog2 \<bar>x\<bar> < p + j" by (intro ilog2_less)
  then have "e \<le> p + j - 1" using lo by (simp add: e_def p_def)
  then have d0: "0 \<le> d" by (simp add: d_def)
  have j: "j = (e - p + 1) + d" by (simp add: d_def)
  have "2 powi j = u * 2 powi d"
    unfolding u_def by (subst j) (simp add: power_int_add)
  also have "(2::rat) powi d = of_int (2 ^ nat d)" using d0 by (simp add: power_int_def)
  finally have Bu: "B = of_int (z * 2 ^ nat d) * u" using B by simp
  then have "B / u = of_int (z * 2 ^ nat d)" using u by simp
  moreover have "x / u \<le> B / u" using x u by (simp add: divide_right_mono)
  ultimately have "rne (x / u) \<le> z * 2 ^ nat d" by (intro rne_le_int) simp
  then have "(of_int (rne (x / u)) :: rat) \<le> of_int (z * 2 ^ nat d)" by (simp only: of_int_le_iff)
  then have rB: "of_int (rne (x / u)) * u \<le> B"
    unfolding Bu using u by (intro mult_right_mono) simp_all
  have "0 \<le> x / u" using x u by simp
  then have "0 \<le> rne (x / u)" by (rule rne_nonneg)
  then have r0: "0 \<le> of_int (rne (x / u)) * u" using u by simp
  have "2 powi (p + j) \<le> (2::rat) powi (emax fmt + 1)"
    using hi by (intro power_int_increasing) (simp_all add: p_def)
  then have "\<not> 2 powi (emax fmt + 1) \<le> \<bar>of_int (rne (x / u)) * u\<bar>"
    using ub rB r0 by simp
  then have "round_to fmt x = Fin (of_int (rne (x / u)) * u)"
    unfolding round_to_def Let_def e_def [symmetric] p_def [symmetric] u_def [symmetric]
    by simp
  then show ?thesis using rB r0 by blast
qed

lemma isqrt_zero: "isqrt 0 = 0"
  by (subst isqrt.simps) simp

lemma isqrt_correct:
  "isqrt n * isqrt n \<le> n \<and> n < (isqrt n + 1) * (isqrt n + 1)"
proof (induction n rule: isqrt.induct)
  case (1 n)
  show ?case
  proof (cases "n < 2")
    case True
    then have "isqrt n = n" by (subst isqrt.simps) simp
    moreover from True have "n = 0 \<or> n = 1" by auto
    ultimately show ?thesis by auto
  next
    case False
    define q where "q = isqrt (n div 4)"
    define r where "r = 2 * q"
    from 1 [OF False] have ih: "q * q \<le> n div 4" "n div 4 < (q + 1) * (q + 1)"
      by (simp_all add: q_def)
    have lo: "r * r \<le> n"
    proof -
      have "r * r = 4 * (q * q)" by (simp add: r_def)
      also have "\<dots> \<le> 4 * (n div 4)" using ih(1) by simp
      also have "\<dots> \<le> n" by simp
      finally show ?thesis .
    qed
    have hi: "n < (r + 2) * (r + 2)"
    proof -
      have "n div 4 + 1 \<le> (q + 1) * (q + 1)" using ih(2) by simp
      then have "4 * (n div 4) + 4 \<le> 4 * ((q + 1) * (q + 1))" by simp
      moreover have "n < 4 * (n div 4) + 4" by presburger
      moreover have "4 * ((q + 1) * (q + 1)) = (r + 2) * (r + 2)" by (simp add: r_def)
      ultimately show ?thesis by simp
    qed
    have e: "isqrt n = (if (r + 1) * (r + 1) \<le> n then r + 1 else r)"
      using False by (subst isqrt.simps) (simp add: Let_def r_def q_def)
    show ?thesis
    proof (cases "(r + 1) * (r + 1) \<le> n")
      case True
      then show ?thesis using hi e by (simp add: numeral_2_eq_2)
    next
      case F: False
      then show ?thesis using lo e by simp
    qed
  qed
qed

lemma isqrt_floor_le:
  fixes y :: rat
  assumes "0 \<le> y"
  shows "of_int (int (isqrt (nat \<lfloor>y\<rfloor>))) * of_int (int (isqrt (nat \<lfloor>y\<rfloor>))) \<le> y"
proof -
  define f where "f = int (isqrt (nat \<lfloor>y\<rfloor>))"
  have fl: "0 \<le> \<lfloor>y\<rfloor>" using assms by simp
  from isqrt_correct [of "nat \<lfloor>y\<rfloor>"]
  have "int (isqrt (nat \<lfloor>y\<rfloor>) * isqrt (nat \<lfloor>y\<rfloor>)) \<le> int (nat \<lfloor>y\<rfloor>)"
    by (simp only: of_nat_le_iff)
  then have "f * f \<le> \<lfloor>y\<rfloor>" using fl by (simp add: f_def)
  then have "(of_int (f * f) :: rat) \<le> of_int \<lfloor>y\<rfloor>" by (simp only: of_int_le_iff)
  then have "of_int f * of_int f \<le> (of_int \<lfloor>y\<rfloor> :: rat)" by simp
  then have "of_int f * of_int f \<le> y" using of_int_floor_le [of y] by (rule order_trans)
  then show ?thesis by (simp only: f_def)
qed

lemma round_sqrt_zero: "round_sqrt fmt 0 = Fin 0"
  by (simp add: round_sqrt_def Let_def isqrt_zero not_le)

text \<open>
  The square root is rounded correctly: the exact root lies within half a spacing of
  the result (stated on the squares), and the root of what is at most \<open>B\<^sup>2\<close>, for a
  representable \<open>B\<close>, is at most \<open>B\<close>.
\<close>

lemma round_sqrt_nearest:
  assumes "0 \<le> x" "round_sqrt fmt x = Fin r"
  defines "u \<equiv> 2 powi (max (ilog2 x div 2) (emin fmt) - int (prec fmt) + 1)"
  shows "x \<le> (r + u / 2) * (r + u / 2) \<and> (u / 2 \<le> r \<longrightarrow> (r - u / 2) * (r - u / 2) \<le> x)"
proof -
  define y where "y = x / (u * u)"
  define f where "f = int (isqrt (nat \<lfloor>y\<rfloor>))"
  define h :: rat where "h = (of_int f + 1 / 2) * (of_int f + 1 / 2)"
  define k where "k = (if y < h then f else if h < y then f + 1
               else if even f then f else f + 1)"
  have u: "0 < u" by (simp add: u_def)
  have y0: "0 \<le> y" using assms(1) u by (simp add: y_def)
  have x: "x = y * (u * u)" using u by (simp add: y_def)
  have r: "r = of_int k * u"
    using assms(2)
    unfolding round_sqrt_def Let_def u_def [symmetric] y_def [symmetric] f_def [symmetric]
      h_def [symmetric] k_def [symmetric]
    by (simp split: if_splits)
  have fl: "0 \<le> \<lfloor>y\<rfloor>" using y0 by simp
  have f0: "0 \<le> f" by (simp add: f_def)
  from isqrt_correct [of "nat \<lfloor>y\<rfloor>"]
  have "int (isqrt (nat \<lfloor>y\<rfloor>) * isqrt (nat \<lfloor>y\<rfloor>)) \<le> int (nat \<lfloor>y\<rfloor>)"
    "int (nat \<lfloor>y\<rfloor>) < int ((isqrt (nat \<lfloor>y\<rfloor>) + 1) * (isqrt (nat \<lfloor>y\<rfloor>) + 1))"
    by (simp_all only: of_nat_le_iff of_nat_less_iff)
  then have i1: "f * f \<le> \<lfloor>y\<rfloor>" and i2: "\<lfloor>y\<rfloor> < (f + 1) * (f + 1)"
    using fl by (simp_all add: f_def algebra_simps)
  have "(of_int (f * f) :: rat) \<le> of_int \<lfloor>y\<rfloor>" using i1 by (simp only: of_int_le_iff)
  then have "of_int f * of_int f \<le> (of_int \<lfloor>y\<rfloor> :: rat)" by simp
  then have lo: "of_int f * of_int f \<le> y" using of_int_floor_le [of y] by (rule order_trans)
  have "\<lfloor>y\<rfloor> + 1 \<le> (f + 1) * (f + 1)" using i2 by simp
  then have "(of_int (\<lfloor>y\<rfloor> + 1) :: rat) \<le> of_int ((f + 1) * (f + 1))" by (simp only: of_int_le_iff)
  then have c1: "(of_int \<lfloor>y\<rfloor> :: rat) + 1 \<le> (of_int f + 1) * (of_int f + 1)" by simp
  have c2: "y < of_int \<lfloor>y\<rfloor> + 1" by linarith
  from c2 c1 have hi: "y < (of_int f + 1) * (of_int f + 1)" by (rule less_le_trans)
  define g :: rat where "g = of_int f"
  have g0: "0 \<le> g" using f0 by (simp add: g_def)
  have hg: "h = (g + 1 / 2) * (g + 1 / 2)" by (simp add: h_def g_def)
  have b: "y \<le> (of_int k + 1 / 2) * (of_int k + 1 / 2) \<and>
           (1 / 2 \<le> (of_int k :: rat) \<longrightarrow> (of_int k - 1 / 2) * (of_int k - 1 / 2) \<le> y)"
  proof (cases "k = f")
    case True
    then have "y \<le> h" by (auto simp: k_def split: if_splits)
    moreover have "(g - 1 / 2) * (g - 1 / 2) \<le> y" if "1 / 2 \<le> g"
    proof -
      have "(g - 1 / 2) * (g - 1 / 2) \<le> g * g"
        using that by (intro mult_mono) simp_all
      then show ?thesis using lo by (simp add: g_def)
    qed
    moreover have "(of_int k :: rat) = g" by (simp add: True g_def)
    ultimately show ?thesis unfolding hg by simp
  next
    case False
    then have kf: "k = f + 1" and "h \<le> y" by (auto simp: k_def split: if_splits)
    have "(g + 1) * (g + 1) \<le> (g + 1 + 1 / 2) * (g + 1 + 1 / 2)"
      using g0 by (intro mult_mono) simp_all
    then have "y \<le> (g + 1 + 1 / 2) * (g + 1 + 1 / 2)" using hi by (simp add: g_def)
    moreover have "g + 1 - 1 / 2 = g + 1 / 2" by simp
    then have "(g + 1 - 1 / 2) * (g + 1 - 1 / 2) \<le> y" using \<open>h \<le> y\<close> by (simp only: hg)
    moreover have ek: "(of_int k :: rat) = g + 1" by (simp add: kf g_def)
    ultimately show ?thesis unfolding ek by blast
  qed
  have e1: "(r + u / 2) * (r + u / 2) = (of_int k + 1 / 2) * (of_int k + 1 / 2) * (u * u)"
    by (simp add: r algebra_simps)
  have e2: "(r - u / 2) * (r - u / 2) = (of_int k - 1 / 2) * (of_int k - 1 / 2) * (u * u)"
    by (simp add: r algebra_simps)
  have uu: "0 < u * u" using u by simp
  have "x \<le> (r + u / 2) * (r + u / 2)"
    unfolding e1 x using b uu by (simp add: mult_right_mono)
  moreover have "(r - u / 2) * (r - u / 2) \<le> x" if "u / 2 \<le> r"
  proof -
    have "1 / 2 * u \<le> of_int k * u" using that by (simp add: r)
    then have "1 / 2 \<le> (of_int k :: rat)" using u by (simp only: mult_le_cancel_right_pos)
    then show ?thesis unfolding e2 x using b uu by (simp add: mult_right_mono)
  qed
  ultimately show ?thesis by blast
qed

lemma round_sqrt_le:
  assumes x: "0 \<le> x" "x \<le> B * B"
    and B: "B = of_int z * 2 powi j"
    and z: "0 \<le> z" "z < 2 ^ prec fmt"
    and lo: "emin fmt - int (prec fmt) + 1 \<le> j"
    and hi: "j + int (prec fmt) \<le> emax fmt + 1"
  shows "\<exists>r. round_sqrt fmt x = Fin r \<and> 0 \<le> r \<and> r \<le> B"
proof (cases "x = 0")
  case True
  have "0 \<le> B" using B z by simp
  then show ?thesis using True by (simp add: round_sqrt_zero)
next
  case False
  then have pos: "0 < x" using x by simp
  define p where "p = int (prec fmt)"
  define e where "e = max (ilog2 x div 2) (emin fmt)"
  define u :: rat where "u = 2 powi (e - p + 1)"
  define d where "d = j - (e - p + 1)"
  define y where "y = x / (u * u)"
  define f where "f = int (isqrt (nat \<lfloor>y\<rfloor>))"
  define h :: rat where "h = (of_int f + 1 / 2) * (of_int f + 1 / 2)"
  define k where "k = (if y < h then f else if h < y then f + 1
               else if even f then f else f + 1)"
  define N where "N = z * 2 ^ nat d"
  have u: "0 < u" by (simp add: u_def)
  have B0: "0 \<le> B" using B z by simp
  have "B = of_int z * 2 powi j" by (rule B)
  also have "\<dots> < 2 ^ prec fmt * 2 powi j"
  proof -
    have "(of_int z :: rat) < of_int (2 ^ prec fmt)" using z by (simp only: of_int_less_iff)
    then show ?thesis by simp
  qed
  also have "\<dots> = 2 powi (p + j)" by (simp add: p_def power_int_add)
  finally have ub: "B < 2 powi (p + j)" .
  have "B * B < 2 powi (p + j) * 2 powi (p + j)"
    using ub B0 by (intro mult_strict_mono') simp_all
  also have "\<dots> = (2::rat) powi (2 * (p + j))"
    by (simp add: power_int_add [symmetric])
  finally have "x < 2 powi (2 * (p + j))" using x by simp
  with pos have "ilog2 x < 2 * (p + j)" by (rule ilog2_less)
  moreover have "a div 2 < c" if "a < 2 * c" for a c :: int
    using that by presburger
  ultimately have "ilog2 x div 2 < p + j" by blast
  then have "e \<le> p + j - 1" using lo by (simp add: e_def p_def)
  then have d0: "0 \<le> d" by (simp add: d_def)
  have j: "j = (e - p + 1) + d" by (simp add: d_def)
  have "2 powi j = u * 2 powi d"
    unfolding u_def by (subst j) (simp add: power_int_add)
  also have "(2::rat) powi d = of_int (2 ^ nat d)" using d0 by (simp add: power_int_def)
  finally have Bu: "B = of_int N * u" using B by (simp add: N_def)
  have N0: "0 \<le> N" using z by (simp add: N_def)
  have y0: "0 \<le> y" using x u by (simp add: y_def)
  have "y \<le> B * B / (u * u)" using x u by (simp add: y_def divide_right_mono)
  also have "\<dots> = of_int N * of_int N" using u by (simp add: Bu)
  finally have yN: "y \<le> of_int N * of_int N" .
  have ff: "of_int f * of_int f \<le> y" unfolding f_def using y0 by (rule isqrt_floor_le)
  have f0: "0 \<le> f" by (simp add: f_def)
  have "(of_int (f * f) :: rat) \<le> of_int (N * N)" using ff yN by simp
  then have "f * f \<le> N * N" by (simp only: of_int_le_iff)
  then have fN: "f \<le> N" using N0 power2_le_imp_le [of f N] by (simp add: power2_eq_square)
  have kN: "k \<le> N"
  proof (cases "f < N")
    case True
    have "k \<le> f + 1" by (simp add: k_def)
    with True show ?thesis by simp
  next
    case False
    with fN have fe: "f = N" by simp
    have "of_int f * of_int f < h" using f0 by (simp add: h_def algebra_simps)
    then have "y < h" using yN fe by simp
    then show ?thesis by (simp add: k_def fe)
  qed
  have k0: "0 \<le> k" using f0 by (simp add: k_def)
  have "(of_int k :: rat) \<le> of_int N" using kN by (simp only: of_int_le_iff)
  then have rB: "of_int k * u \<le> B" unfolding Bu using u by (intro mult_right_mono) simp_all
  have r0: "0 \<le> of_int k * u" using k0 u by simp
  have "2 powi (p + j) \<le> (2::rat) powi (emax fmt + 1)"
    using hi by (intro power_int_increasing) (simp_all add: p_def)
  then have "\<not> 2 powi (emax fmt + 1) \<le> of_int k * u" using ub rB by simp
  then have "round_sqrt fmt x = Fin (of_int k * u)"
    unfolding round_sqrt_def Let_def e_def [symmetric] p_def [symmetric] u_def [symmetric]
      y_def [symmetric] f_def [symmetric] h_def [symmetric] k_def [symmetric]
    by simp
  then show ?thesis using rB r0 by blast
qed

section \<open>The loops\<close>

text \<open>The counter never wraps: it is below \<open>n\<close> when it is incremented.\<close>

lemma sint_succ:
  fixes i n :: c_int
  assumes "sint i < sint n"
  shows "sint (i + 1) = sint i + 1"
proof -
  have "sint n < 2 ^ (LENGTH(32) - 1)" by (rule sint_lt)
  moreover have "- (2 ^ (LENGTH(32) - 1)) \<le> sint i" by (rule sint_ge)
  ultimately show ?thesis
    using assms by (simp add: sint_word_ariths signed_take_bit_int_eq_self)
qed

lemma load_sample_Some:
  "0 \<le> sint i \<Longrightarrow> nat (sint i) < length (samples m) \<Longrightarrow>
   load_sample m i = Some (samples m ! nat (sint i))"
  by (simp add: load_sample_def)

lemma rms_loop_foldl:
  assumes "0 \<le> sint i" "sint i \<le> sint n" "nat (sint n) \<le> length (samples m)"
  shows "rms_loop m n i acc =
         Some (foldl sq_step acc (drop (nat (sint i)) (take (nat (sint n)) (samples m))))"
  using assms
proof (induction m n i acc rule: rms_loop.induct)
  case (1 m n i acc)
  show ?case
  proof (cases "sint i < sint n")
    case True
    have ld: "load_sample m i = Some (samples m ! nat (sint i))"
      using True 1(2,4) by (simp add: load_sample_def)
    have s: "sint (i + 1) = sint i + 1" using True by (rule sint_succ)
    have ih: "rms_loop m n (i + 1) (sq_step acc (samples m ! nat (sint i))) =
       Some (foldl sq_step (sq_step acc (samples m ! nat (sint i)))
               (drop (nat (sint (i + 1))) (take (nat (sint n)) (samples m))))"
      using 1(1) [OF True ld refl] True 1(2,4) s by (simp add: sq_step_def [abs_def])
    have len: "nat (sint i) < length (take (nat (sint n)) (samples m))"
      using True 1(2,4) by simp
    have "drop (nat (sint i)) (take (nat (sint n)) (samples m)) =
          samples m ! nat (sint i) # drop (nat (sint (i + 1))) (take (nat (sint n)) (samples m))"
      using Cons_nth_drop_Suc [OF len] len 1(2) s by (simp add: nat_add_distrib)
    then show ?thesis
      using True ld ih by (subst rms_loop.simps) (simp add: sq_step_def [abs_def] Let_def)
  next
    case False
    with 1(3) have "sint i = sint n" by simp
    then show ?thesis using False by (subst rms_loop.simps) simp
  qed
qed

lemma store_out_Some:
  "0 \<le> sint i \<Longrightarrow> nat (sint i) < length (out m) \<Longrightarrow>
   store_out m i v = Some (m\<lparr>out := (out m)[nat (sint i) := v]\<rparr>)"
  by (simp add: store_out_def)

lemma pcm_loop_result:
  assumes "0 \<le> sint i" "sint i \<le> sint n"
    "nat (sint n) \<le> length (samples m)" "nat (sint n) \<le> length (out m)"
  shows "\<exists>m'. pcm_loop m n i = Some m' \<and> samples m' = samples m \<and>
           length (out m') = length (out m) \<and>
           (\<forall>k. out m' ! k =
              (if nat (sint i) \<le> k \<and> k < nat (sint n) then pcm_sample (samples m ! k)
               else out m ! k))"
  using assms
proof (induction m n i rule: pcm_loop.induct)
  case (1 m n i)
  show ?case
  proof (cases "sint i < sint n")
    case True
    define v where "v = pcm_sample (samples m ! nat (sint i))"
    define m1 where "m1 = m\<lparr>out := (out m)[nat (sint i) := v]\<rparr>"
    have ld: "load_sample m i = Some (samples m ! nat (sint i))"
      using True 1(2,4) by (simp add: load_sample_def)
    have st: "store_out m i (fp_div binary32 (f_of_int (sint (samples m ! nat (sint i)))) (Fin 32768)) = Some m1"
      using True 1(2,5) by (simp add: store_out_def m1_def v_def pcm_sample_def)
    have s: "sint (i + 1) = sint i + 1" using True by (rule sint_succ)
    have m1: "samples m1 = samples m" "length (out m1) = length (out m)"
      "out m1 = (out m)[nat (sint i) := v]"
      by (simp_all add: m1_def)
    have "\<exists>m'. pcm_loop m1 n (i + 1) = Some m' \<and> samples m' = samples m1 \<and>
           length (out m') = length (out m1) \<and>
           (\<forall>k. out m' ! k =
              (if nat (sint (i + 1)) \<le> k \<and> k < nat (sint n) then pcm_sample (samples m1 ! k)
               else out m1 ! k))"
      using 1(1) [OF True ld st] True 1(2,4,5) s m1 by simp
    then obtain m' where m': "pcm_loop m1 n (i + 1) = Some m'" "samples m' = samples m"
      "length (out m') = length (out m)"
      and el: "\<And>k. out m' ! k =
              (if nat (sint i) + 1 \<le> k \<and> k < nat (sint n) then pcm_sample (samples m ! k)
               else (out m)[nat (sint i) := v] ! k)"
      using m1 s 1(2) by (auto simp: nat_add_distrib)
    have "pcm_loop m n i = Some m'"
      using True ld st m'(1) by (subst pcm_loop.simps) simp
    moreover have "out m' ! k =
              (if nat (sint i) \<le> k \<and> k < nat (sint n) then pcm_sample (samples m ! k)
               else out m ! k)" for k
    proof (cases "k = nat (sint i)")
      case True
      have "nat (sint i) < length (out m)" using \<open>sint i < sint n\<close> 1(2,5) by simp
      then show ?thesis using \<open>sint i < sint n\<close> 1(2) True
        by (simp add: el v_def)
    next
      case False
      then show ?thesis by (auto simp: el)
    qed
    ultimately show ?thesis using m'(2,3) by blast
  next
    case False
    with 1(3) have "sint i = sint n" by simp
    then show ?thesis using False by (subst pcm_loop.simps) auto
  qed
qed

section \<open>Conversions and the scaling are exact\<close>

lemma sint16_bounds:
  fixes x :: int16
  shows "- 32768 \<le> sint x" "sint x < 32768"
  using sint_ge [of x] sint_lt [of x] by simp_all

lemma sint32_bounds:
  fixes n :: c_int
  shows "- 2147483648 \<le> sint n" "sint n < 2147483648"
  using sint_ge [of n] sint_lt [of n] by simp_all

lemma f_of_int_exact:
  assumes "\<bar>k\<bar> < 2 ^ 24"
  shows "f_of_int k = Fin (of_int k)"
  unfolding f_of_int_def
  by (rule round_to_exact [where z = k and j = 0]) (use assms in \<open>simp_all add: binary32_def\<close>)

lemma d_of_int_exact:
  assumes "\<bar>k\<bar> < 2 ^ 53"
  shows "d_of_int k = Fin (of_int k)"
  unfolding d_of_int_def
  by (rule round_to_exact [where z = k and j = 0]) (use assms in \<open>simp_all add: binary64_def\<close>)

lemma f_div_32768_exact:
  assumes "\<bar>k\<bar> < 2 ^ 24"
  shows "fp_div binary32 (Fin (of_int k)) (Fin 32768) = Fin (of_int k / 32768)"
proof -
  have "round_to binary32 (of_int k / 32768) = Fin (of_int k / 32768)"
    by (rule round_to_exact [where z = k and j = "- 15"])
       (use assms in \<open>simp_all add: binary32_def power_int_minus field_simps\<close>)
  then show ?thesis by simp
qed

lemma pcm_sample_exact: "pcm_sample x = Fin (of_int (sint x) / 32768)"
proof -
  have "\<bar>sint x\<bar> < 2 ^ 24" using sint16_bounds [of x] by simp
  then show ?thesis by (simp only: pcm_sample_def f_of_int_exact f_div_32768_exact)
qed

lemma d_of_sample_exact:
  fixes x :: int16
  shows "d_of_int (sint x) = Fin (of_int (sint x))"
  using sint16_bounds [of x] by (intro d_of_int_exact) simp

lemma d_of_count_exact:
  fixes n :: c_int
  shows "d_of_int (sint n) = Fin (of_int (sint n))"
  using sint32_bounds [of n] by (intro d_of_int_exact) simp

lemma vox_pcm_result:
  assumes "nat (sint n) \<le> length (samples m)" "nat (sint n) \<le> length (out m)"
  shows "\<exists>m'. vox_pcm_to_float32 m n = Some m' \<and> samples m' = samples m \<and>
           length (out m') = length (out m) \<and>
           (\<forall>k. out m' ! k =
              (if k < nat (sint n) then pcm_sample (samples m ! k) else out m ! k))"
proof (cases "sint n \<le> 0")
  case True
  then show ?thesis by (simp add: vox_pcm_to_float32_def)
next
  case False
  then have "0 \<le> sint (0 :: c_int)" "sint (0 :: c_int) \<le> sint n" by simp_all
  from pcm_loop_result [OF this assms] False show ?thesis
    by (simp add: vox_pcm_to_float32_def)
qed

section \<open>Consequences for the two routines\<close>

subsection \<open>The accumulated sum is exact for buffers below \<open>2\<^sup>2\<^sup>3\<close> samples\<close>

text \<open>
  A square of a sample is an integer of at most 31 bits, so the product \<^verbatim>\<open>s * s\<close> is
  never rounded; the additions are not rounded either while the sum stays below \<open>2\<^sup>5\<^sup>3\<close>.
\<close>

lemma sq_step_exact:
  assumes "0 \<le> a" "a + sint x * sint x < 2 ^ 53"
  shows "sq_step (Fin (of_int a)) x = Fin (of_int (a + sint x * sint x))"
proof -
  have "0 \<le> sint x * sint x" by simp
  then have b: "\<bar>sint x * sint x\<bar> < 2 ^ prec binary64" "\<bar>a + sint x * sint x\<bar> < 2 ^ prec binary64"
    using assms by (simp_all add: binary64_def)
  have "round_to binary64 (of_int (sint x * sint x)) = Fin (of_int (sint x * sint x))"
    by (rule round_to_exact [where z = "sint x * sint x" and j = 0])
       (use b in \<open>simp_all add: binary64_def del: of_int_mult\<close>)
  moreover have "round_to binary64 (of_int (a + sint x * sint x)) = Fin (of_int (a + sint x * sint x))"
    by (rule round_to_exact [where z = "a + sint x * sint x" and j = 0])
       (use b in \<open>simp_all add: binary64_def del: of_int_mult of_int_add\<close>)
  ultimately show ?thesis
    unfolding sq_step_def d_of_sample_exact by (simp del: of_int_sint)
qed

lemma sint16_square_bound:
  fixes x :: int16
  shows "sint x * sint x \<le> 2 ^ 30"
proof -
  have "\<bar>sint x\<bar> \<le> 2 ^ 15" using sint16_bounds [of x] by simp
  then have "\<bar>sint x\<bar> * \<bar>sint x\<bar> \<le> 2 ^ 15 * 2 ^ 15"
    by (intro mult_mono) simp_all
  then show ?thesis by simp
qed

lemma foldl_sq_step_exact:
  assumes "0 \<le> a" "a + int (length S) * 2 ^ 30 < 2 ^ 53"
  shows "foldl sq_step (Fin (of_int a)) S = Fin (of_int (a + (\<Sum>x\<leftarrow>S. sint x * sint x)))"
  using assms
proof (induction S arbitrary: a)
  case Nil
  then show ?case by simp
next
  case (Cons x S)
  have sq: "sint x * sint x \<le> 2 ^ 30" "0 \<le> sint x * sint x"
    using sint16_square_bound [of x] by simp_all
  have st: "sq_step (Fin (of_int a)) x = Fin (of_int (a + sint x * sint x))"
    using Cons.prems sq by (intro sq_step_exact) simp_all
  have "foldl sq_step (Fin (of_int (a + sint x * sint x))) S =
        Fin (of_int (a + sint x * sint x + (\<Sum>y\<leftarrow>S. sint y * sint y)))"
    using Cons.prems sq by (intro Cons.IH) (simp_all add: algebra_simps)
  then show ?case by (simp only: foldl_Cons st sum_list.Cons list.map add.assoc)
qed

lemma sum_squares_exact:
  assumes "length S < 2 ^ 23"
  shows "sum_squares S = Fin (of_int (\<Sum>x\<leftarrow>S. sint x * sint x))"
proof -
  have "int (length S) < 2 ^ 23" using assms by simp
  then have "0 + int (length S) * 2 ^ 30 < 2 ^ 53" by simp
  from foldl_sq_step_exact [OF _ this] show ?thesis by (simp add: sum_squares_def)
qed

subsection \<open>Zero samples\<close>

lemma sq_step_zero: "sq_step (Fin 0) 0 = Fin 0"
  by (simp add: sq_step_def d_of_int_def round_to_zero)

lemma foldl_sq_step_zeros:
  "\<forall>x \<in> set S. x = 0 \<Longrightarrow> foldl sq_step (Fin 0) S = Fin 0"
  by (induction S) (simp_all add: sq_step_zero)

subsection \<open>Calls on valid buffers return\<close>

lemma rms_returns:
  assumes "nat (sint n) \<le> length (samples m)"
  shows "\<exists>r. vox_rms_int16 m n = Some (r, m)"
proof (cases "sint n \<le> 0")
  case True
  then show ?thesis by (simp add: vox_rms_int16_def)
next
  case False
  then show ?thesis using assms by (simp add: vox_rms_int16_def rms_loop_foldl)
qed

lemma pcm_single:
  "vox_pcm_to_float32 \<lparr>samples = [s], out = [v]\<rparr> 1 =
   Some \<lparr>samples = [s], out = [pcm_sample s]\<rparr>"
proof -
  let ?m = "\<lparr>samples = [s], out = [v]\<rparr>"
  have "nat (sint (1 :: c_int)) \<le> length (samples ?m)"
    "nat (sint (1 :: c_int)) \<le> length (out ?m)" by simp_all
  from vox_pcm_result [OF this] obtain m' where m':
    "vox_pcm_to_float32 ?m 1 = Some m'" "samples m' = [s]" "length (out m') = 1"
    and el: "\<And>k. out m' ! k = (if k < 1 then pcm_sample ([s] ! k) else [v] ! k)"
    by auto
  have "out m' ! 0 = pcm_sample s" using el [of 0] by simp
  with m'(3) have "out m' = [pcm_sample s]"
    by (cases "out m'") simp_all
  with m'(2) have "m' = \<lparr>samples = [s], out = [pcm_sample s]\<rparr>" by (cases m') simp
  with m'(1) show ?thesis by simp
qed

lemma pcm_twice:
  assumes "nat (sint n) \<le> length (samples m)" "nat (sint n) \<le> length (out m)"
  shows "\<exists>m'. vox_pcm_to_float32 m n = Some m' \<and> vox_pcm_to_float32 m' n = Some m'"
proof -
  from vox_pcm_result [OF assms] obtain m' where m':
    "vox_pcm_to_float32 m n = Some m'" "samples m' = samples m"
    "length (out m') = length (out m)"
    and el: "\<And>k. out m' ! k = (if k < nat (sint n) then pcm_sample (samples m ! k) else out m ! k)"
    by blast
  have "nat (sint n) \<le> length (samples m')" "nat (sint n) \<le> length (out m')"
    using assms m' by simp_all
  from vox_pcm_result [OF this] obtain m2 where m2:
    "vox_pcm_to_float32 m' n = Some m2" "samples m2 = samples m'"
    "length (out m2) = length (out m')"
    and el2: "\<And>k. out m2 ! k = (if k < nat (sint n) then pcm_sample (samples m' ! k) else out m' ! k)"
    by blast
  have "out m2 = out m'"
    by (rule nth_equalityI) (simp_all add: m2 el2 el m')
  with m2(2) have "m2 = m'" by simp
  with m'(1) m2(1) show ?thesis by simp
qed

subsection \<open>The result is finite, and between 0 and 32768\<close>

text \<open>
  The product \<^verbatim>\<open>s * s\<close> is exact, so the sum is the same whether or not the compiler
  contracts \<^verbatim>\<open>sum += s * s\<close> into a fused multiply-add. After \<open>c\<close> samples the
  accumulated sum is at most \<open>c \<cdot> 2\<^sup>3\<^sup>0\<close>, a value of binary64 for every \<open>c \<le> 2\<^sup>3\<^sup>1\<close>; no
  operation of the routine overflows.
\<close>

lemma d_square_exact:
  fixes x :: int16
  shows "fp_mul binary64 (d_of_int (sint x)) (d_of_int (sint x)) = Fin (of_int (sint x * sint x))"
proof -
  have "sint x * sint x \<le> 2 ^ 30" by (rule sint16_square_bound)
  moreover have "0 \<le> sint x * sint x" by simp
  ultimately have b: "\<bar>sint x * sint x\<bar> < 2 ^ prec binary64" by (simp add: binary64_def)
  have "round_to binary64 (of_int (sint x * sint x)) = Fin (of_int (sint x * sint x))"
    by (rule round_to_exact [where z = "sint x * sint x" and j = 0])
       (use b in \<open>simp_all add: binary64_def del: of_int_mult\<close>)
  then show ?thesis unfolding d_of_sample_exact by (simp del: of_int_sint)
qed

lemma sq_step_bounded:
  assumes "0 \<le> a" "a \<le> of_int c * 2 ^ 30" "0 \<le> c" "c < 2 ^ 31"
  shows "\<exists>b. sq_step (Fin a) x = Fin b \<and> 0 \<le> b \<and> b \<le> of_int (c + 1) * 2 ^ 30"
proof -
  define k :: rat where "k = of_int (sint x * sint x)"
  have "sint x * sint x \<le> 2 ^ 30" by (rule sint16_square_bound)
  then have "k \<le> of_int (2 ^ 30)" unfolding k_def by (simp only: of_int_le_iff)
  then have k1: "k \<le> 2 ^ 30" by simp
  have "0 \<le> sint x * sint x" by simp
  then have k0: "0 \<le> k" unfolding k_def by (simp only: of_int_0_le_iff)
  have eq: "sq_step (Fin a) x = round_to binary64 (a + k)"
    unfolding sq_step_def d_square_exact k_def by simp
  have "a + k \<le> of_int c * 2 ^ 30 + 2 ^ 30" using assms(2) k1 by simp
  also have "\<dots> = of_int (c + 1) * 2 powi 30" by (simp add: algebra_simps)
  finally have le: "a + k \<le> of_int (c + 1) * 2 powi 30" .
  have "\<exists>r. round_to binary64 (a + k) = Fin r \<and> 0 \<le> r \<and> r \<le> of_int (c + 1) * 2 powi 30"
    using assms(1,3,4) k0 le
    by (intro round_to_le [where z = "c + 1" and j = 30]) (simp_all add: binary64_def)
  then show ?thesis unfolding eq by simp
qed

lemma foldl_sq_step_bounded:
  assumes "0 \<le> a" "a \<le> of_int c * 2 ^ 30" "0 \<le> c" "c + int (length S) \<le> 2 ^ 31"
  shows "\<exists>b. foldl sq_step (Fin a) S = Fin b \<and> 0 \<le> b \<and>
             b \<le> of_int (c + int (length S)) * 2 ^ 30"
  using assms
proof (induction S arbitrary: a c)
  case Nil
  then show ?case by simp
next
  case (Cons x S)
  from Cons.prems have "c < 2 ^ 31" by simp
  from sq_step_bounded [OF Cons.prems(1,2,3) this, of x] obtain b where
    b: "sq_step (Fin a) x = Fin b" "0 \<le> b" "b \<le> of_int (c + 1) * 2 ^ 30"
    by blast
  have "\<exists>b'. foldl sq_step (Fin b) S = Fin b' \<and> 0 \<le> b' \<and>
             b' \<le> of_int (c + 1 + int (length S)) * 2 ^ 30"
    using b(2,3) Cons.prems(3,4) by (intro Cons.IH) simp_all
  moreover have "c + 1 + int (length S) = c + int (length (x # S))" by simp
  ultimately show ?case by (simp only: foldl_Cons b(1))
qed

lemma rms_bounded:
  assumes "nat (sint n) \<le> length (samples m)"
  shows "\<exists>q. vox_rms_int16 m n = Some (Fin q, m) \<and> 0 \<le> q \<and> q \<le> 32768"
proof (cases "sint n \<le> 0")
  case True
  then show ?thesis by (simp add: vox_rms_int16_def)
next
  case False
  define S where "S = take (nat (sint n)) (samples m)"
  have len: "int (length S) = sint n" using False assms by (simp add: S_def)
  have n31: "sint n < 2 ^ 31" using sint32_bounds [of n] by simp
  have loop: "rms_loop m n 0 (Fin 0) = Some (foldl sq_step (Fin 0) S)"
    using False assms by (simp add: rms_loop_foldl S_def)
  have "\<exists>b. foldl sq_step (Fin 0) S = Fin b \<and> 0 \<le> b \<and>
             b \<le> of_int (0 + int (length S)) * 2 ^ 30"
    using n31 len by (intro foldl_sq_step_bounded) simp_all
  then obtain b where b: "foldl sq_step (Fin 0) S = Fin b" "0 \<le> b"
    "b \<le> of_int (sint n) * 2 ^ 30"
    unfolding len by auto
  define c :: rat where "c = of_int (sint n)"
  have "0 < sint n" using False by simp
  then have c0: "0 < c" unfolding c_def by (simp only: of_int_0_less_iff)
  have cnt: "d_of_int (sint n) = Fin c" unfolding c_def by (rule d_of_count_exact)
  have "b \<le> c * 2 ^ 30" using b(3) unfolding c_def .
  then have "b / c \<le> 2 ^ 30" using c0 by (simp add: field_simps)
  then have "b / c \<le> of_int 1 * 2 powi 30" by simp
  moreover have "0 \<le> b / c" using b(2) c0 by simp
  ultimately have "\<exists>r. round_to binary64 (b / c) = Fin r \<and> 0 \<le> r \<and> r \<le> of_int 1 * 2 powi 30"
    by (intro round_to_le [where z = 1 and j = 30]) (simp_all add: binary64_def)
  then obtain r where r: "fp_div binary64 (Fin b) (Fin c) = Fin r" "0 \<le> r" "r \<le> 2 ^ 30"
    using c0 by auto
  have "r \<le> (of_int 1 * 2 powi 15) * (of_int 1 * 2 powi 15)" using r(3) by simp
  with r(2) have "\<exists>q. round_sqrt binary64 r = Fin q \<and> 0 \<le> q \<and> q \<le> of_int 1 * 2 powi 15"
    by (intro round_sqrt_le [where z = 1 and j = 15]) (simp_all add: binary64_def)
  then obtain q where q: "fp_sqrt binary64 (Fin r) = Fin q" "0 \<le> q" "q \<le> 32768"
    using r(2) by auto
  have "vox_rms_int16 m n =
        Some (fp_sqrt binary64 (fp_div binary64 (Fin b) (d_of_int (sint n))), m)"
    using False by (simp add: vox_rms_int16_def loop b(1) del: fp_div.simps fp_sqrt.simps)
  then have "vox_rms_int16 m n = Some (Fin q, m)"
    by (simp only: cnt r(1) q(1))
  then show ?thesis using q by blast
qed

subsection \<open>The scaling preserves the order\<close>

lemma pcm_sample_mono:
  assumes "sint a \<le> sint b"
  shows "fp_le (pcm_sample a) (pcm_sample b)"
proof -
  have "(of_int (sint a) :: rat) \<le> of_int (sint b)" using assms by (simp only: of_int_le_iff)
  then have "(of_int (sint a) :: rat) / 32768 \<le> of_int (sint b) / 32768"
    by (simp add: divide_right_mono del: of_int_sint)
  then show ?thesis unfolding pcm_sample_exact by simp
qed

section \<open>The claims\<close>

text \<open>
  C1. For a count \<open>n \<ge> 1\<close> and a buffer holding at least \<open>n\<close> samples,
  \<^verbatim>\<open>vox_rms_int16\<close> returns the square root of the sum of the squares of the first \<open>n\<close>
  samples divided by \<open>n\<close>: the sum is accumulated in binary64, and the division and
  the square root are each done once, at the end.
\<close>

theorem rms_formula_refines:
  assumes "1 \<le> sint n" "nat (sint n) \<le> length (samples m)"
  shows "vox_rms_int16 m n = Some (rms_formula (take (nat (sint n)) (samples m)), m)"
proof -
  have "rms_loop m n 0 (Fin 0) = Some (sum_squares (take (nat (sint n)) (samples m)))"
    using assms by (simp add: rms_loop_foldl sum_squares_def)
  moreover have "int (length (take (nat (sint n)) (samples m))) = sint n"
    using assms by simp
  ultimately show ?thesis using assms(1)
    by (simp add: vox_rms_int16_def rms_formula_def)
qed

text \<open>On the samples 1, 1, 0 the routine returns the binary64 number 0.816496580927726.\<close>

theorem rms_formula_refines_witness:
  "1 \<le> sint (3 :: c_int) \<and>
   nat (sint (3 :: c_int)) \<le> length (samples \<lparr>samples = [1, 1, 0], out = []\<rparr>) \<and>
   vox_rms_int16 \<lparr>samples = [1, 1, 0], out = []\<rparr> 3 =
     Some (Fin (3677173697615391 / 4503599627370496), \<lparr>samples = [1, 1, 0], out = []\<rparr>)"
  using rms_formula_refines [of 3 "\<lparr>samples = [1, 1, 0], out = []\<rparr>"]
  by (simp add: rms_formula_def sum_squares_def sq_step_def round_to_def round_sqrt_def
      binary64_def ilog2.simps isqrt.simps rne_def Let_def d_of_int_def floor_rat_numeral)

text \<open>
  C2. For buffers holding at least \<open>n\<close> samples and \<open>n\<close> output elements,
  \<^verbatim>\<open>vox_pcm_to_float32\<close> returns, and for every index \<open>i\<close> below \<open>n\<close> the element
  \<open>out[i]\<close> is the binary32 quotient of the sample by 32768, which is the rational
  \<open>S[i] / 32768\<close> itself: neither the conversion nor the division rounds.
\<close>

theorem pcm_elements:
  assumes "nat (sint n) \<le> length (samples m)" "nat (sint n) \<le> length (out m)"
  shows "\<exists>m'. vox_pcm_to_float32 m n = Some m' \<and>
           (\<forall>i < nat (sint n).
              out m' ! i = fp_div binary32 (f_of_int (sint (samples m ! i))) (Fin 32768) \<and>
              out m' ! i = Fin (of_int (sint (samples m ! i)) / 32768))"
proof -
  from vox_pcm_result [OF assms] obtain m' where
    "vox_pcm_to_float32 m n = Some m'"
    "\<And>k. out m' ! k = (if k < nat (sint n) then pcm_sample (samples m ! k) else out m ! k)"
    by blast
  moreover have "pcm_sample x = fp_div binary32 (f_of_int (sint x)) (Fin 32768)" for x
    by (simp only: pcm_sample_def)
  moreover have "pcm_sample x = Fin (of_int (sint x) / 32768)" for x
    by (rule pcm_sample_exact)
  ultimately show ?thesis by metis
qed

theorem pcm_elements_witness:
  "nat (sint (3 :: c_int)) \<le> length (samples \<lparr>samples = [- 32768, 32767, 1], out = [NaN, NaN, NaN, PosInf]\<rparr>) \<and>
   nat (sint (3 :: c_int)) \<le> length (out \<lparr>samples = [- 32768, 32767, 1], out = [NaN, NaN, NaN, PosInf]\<rparr>) \<and>
   (\<exists>m'. vox_pcm_to_float32 \<lparr>samples = [- 32768, 32767, 1], out = [NaN, NaN, NaN, PosInf]\<rparr> 3 = Some m' \<and>
      out m' ! 0 = Fin (- 1) \<and> out m' ! 1 = Fin (32767 / 32768) \<and> out m' ! 2 = Fin (1 / 32768))"
proof -
  let ?m = "\<lparr>samples = [- 32768, 32767, 1], out = [NaN, NaN, NaN, PosInf]\<rparr>"
  have h: "nat (sint (3 :: c_int)) \<le> length (samples ?m)" "nat (sint (3 :: c_int)) \<le> length (out ?m)"
    by simp_all
  from pcm_elements [OF h] obtain m' where r: "vox_pcm_to_float32 ?m 3 = Some m'"
    and el: "\<And>i. i < 3 \<Longrightarrow> out m' ! i = Fin (of_int (sint (samples ?m ! i)) / 32768)"
    by auto
  have "out m' ! 0 = Fin (- 1)" "out m' ! 1 = Fin (32767 / 32768)" "out m' ! 2 = Fin (1 / 32768)"
    using el [of 0] el [of 1] el [of 2] by simp_all
  with r h show ?thesis by blast
qed

text \<open>
  C3. For a count \<open>n \<le> 0\<close>, \<^verbatim>\<open>vox_rms_int16\<close> returns \<open>0.0\<close> and reads no sample,
  whatever the buffer is.
\<close>

theorem rms_nonpositive_count:
  assumes "sint n \<le> 0"
  shows "vox_rms_int16 m n = Some (Fin 0, m)"
  using assms by (simp add: vox_rms_int16_def)

theorem rms_nonpositive_count_witness:
  "sint (- 5 :: c_int) \<le> 0 \<and>
   vox_rms_int16 \<lparr>samples = [], out = []\<rparr> (- 5) = Some (Fin 0, \<lparr>samples = [], out = []\<rparr>)"
  using rms_nonpositive_count [of "- 5" "\<lparr>samples = [], out = []\<rparr>"] by simp

text \<open>
  C4. For a count \<open>n \<le> 0\<close>, \<^verbatim>\<open>vox_pcm_to_float32\<close> returns with the memory as it
  was: no element of the output buffer is written.
\<close>

theorem pcm_nonpositive_count:
  assumes "sint n \<le> 0"
  shows "vox_pcm_to_float32 m n = Some m"
  using assms by (simp add: vox_pcm_to_float32_def)

theorem pcm_nonpositive_count_witness:
  "sint (0 :: c_int) \<le> 0 \<and>
   vox_pcm_to_float32 \<lparr>samples = [7], out = [NaN]\<rparr> 0 = Some \<lparr>samples = [7], out = [NaN]\<rparr>"
  using pcm_nonpositive_count [of 0 "\<lparr>samples = [7], out = [NaN]\<rparr>"] by simp

text \<open>
  C5. Converting the single sample \<open>-32768\<close> writes \<open>-1.0\<close>, converting the single
  sample \<open>32767\<close> writes \<open>32767/32768\<close>, and converting any single sample writes a finite
  value \<open>r\<close> with \<open>-1 \<le> r < 1\<close>.
\<close>

theorem pcm_range:
  "vox_pcm_to_float32 \<lparr>samples = [- 32768], out = [v]\<rparr> 1 =
     Some \<lparr>samples = [- 32768], out = [Fin (- 1)]\<rparr> \<and>
   vox_pcm_to_float32 \<lparr>samples = [32767], out = [v]\<rparr> 1 =
     Some \<lparr>samples = [32767], out = [Fin (32767 / 32768)]\<rparr> \<and>
   (\<exists>r. vox_pcm_to_float32 \<lparr>samples = [s], out = [v]\<rparr> 1 =
          Some \<lparr>samples = [s], out = [Fin r]\<rparr> \<and> - 1 \<le> r \<and> r < 1)"
proof -
  have a: "pcm_sample (- 32768) = Fin (- 1)"
    by (simp add: pcm_sample_exact)
  have b: "pcm_sample 32767 = Fin (32767 / 32768)"
    by (simp add: pcm_sample_exact)
  have "- 32768 \<le> sint s" "sint s < 32768" by (rule sint16_bounds)+
  then have "(of_int (- 32768) :: rat) \<le> of_int (sint s)" "(of_int (sint s) :: rat) < of_int 32768"
    by (simp_all only: of_int_le_iff of_int_less_iff)
  then have c: "- 1 \<le> (of_int (sint s) :: rat) / 32768" "(of_int (sint s) :: rat) / 32768 < 1"
    by simp_all
  have "\<exists>r. Some \<lparr>samples = [s], out = [pcm_sample s]\<rparr> =
          Some \<lparr>samples = [s], out = [Fin r]\<rparr> \<and> - 1 \<le> r \<and> r < 1"
    unfolding pcm_sample_exact using c by blast
  then show ?thesis unfolding pcm_single a b by blast
qed

theorem pcm_range_witness:
  "vox_pcm_to_float32 \<lparr>samples = [- 32768], out = [NaN]\<rparr> 1 =
     Some \<lparr>samples = [- 32768], out = [Fin (- 1)]\<rparr> \<and>
   vox_pcm_to_float32 \<lparr>samples = [32767], out = [NaN]\<rparr> 1 =
     Some \<lparr>samples = [32767], out = [Fin (32767 / 32768)]\<rparr> \<and>
   (\<exists>r. vox_pcm_to_float32 \<lparr>samples = [- 1], out = [NaN]\<rparr> 1 =
          Some \<lparr>samples = [- 1], out = [Fin r]\<rparr> \<and> - 1 \<le> r \<and> r < 1)"
  by (rule pcm_range)

text \<open>
  C6. On a buffer whose first \<open>n\<close> samples are all zero, \<^verbatim>\<open>vox_rms_int16\<close> returns
  \<open>0.0\<close>, for every count \<open>n\<close>.
\<close>

theorem rms_all_zero:
  assumes "nat (sint n) \<le> length (samples m)"
    and "\<forall>i < nat (sint n). samples m ! i = 0"
  shows "vox_rms_int16 m n = Some (Fin 0, m)"
proof (cases "sint n \<le> 0")
  case True
  then show ?thesis by (simp add: vox_rms_int16_def)
next
  case False
  have "\<forall>x \<in> set (take (nat (sint n)) (samples m)). x = 0"
    using assms by (auto simp: in_set_conv_nth)
  then have "rms_loop m n 0 (Fin 0) = Some (Fin 0)"
    using False assms(1) by (simp add: rms_loop_foldl foldl_sq_step_zeros)
  moreover have "d_of_int (sint n) = Fin (of_int (sint n))" by (rule d_of_count_exact)
  moreover have "sint n \<noteq> 0" using False by simp
  then have "(of_int (sint n) :: rat) \<noteq> 0" by (simp only: of_int_eq_0_iff not_False_eq_True)
  ultimately show ?thesis using False
    by (simp add: vox_rms_int16_def round_to_zero round_sqrt_zero del: of_int_sint)
qed

theorem rms_all_zero_witness:
  "nat (sint (4 :: c_int)) \<le> length (samples \<lparr>samples = [0, 0, 0, 0, 9], out = []\<rparr>) \<and>
   samples \<lparr>samples = [0, 0, 0, 0, 9], out = []\<rparr> ! 0 = 0 \<and>
   samples \<lparr>samples = [0, 0, 0, 0, 9], out = []\<rparr> ! 3 = 0 \<and>
   vox_rms_int16 \<lparr>samples = [0, 0, 0, 0, 9], out = []\<rparr> 4 =
     Some (Fin 0, \<lparr>samples = [0, 0, 0, 0, 9], out = []\<rparr>)"
proof -
  let ?m = "\<lparr>samples = [0, 0, 0, 0, 9], out = []\<rparr>"
  have h: "nat (sint (4 :: c_int)) \<le> length (samples ?m)" by simp
  have z: "\<forall>i < nat (sint (4 :: c_int)). samples ?m ! i = 0"
    by (simp add: nth_Cons' less_Suc_eq)
  from rms_all_zero [OF h z] h show ?thesis by simp
qed

text \<open>
  C7. On valid buffers both routines return and leave the sample buffer as it was;
  \<^verbatim>\<open>vox_pcm_to_float32\<close> keeps the length of the output buffer and every element
  \<open>out[j]\<close> with \<open>j \<ge> n\<close>. No object is created: the memory after the call consists of
  the same two buffers.
\<close>

theorem buffers_frame:
  assumes "nat (sint n) \<le> length (samples m)" "nat (sint n) \<le> length (out m)"
  shows "(\<exists>r. vox_rms_int16 m n = Some (r, m)) \<and>
         (\<exists>m'. vox_pcm_to_float32 m n = Some m' \<and> samples m' = samples m \<and>
               length (out m') = length (out m) \<and>
               (\<forall>j. nat (sint n) \<le> j \<longrightarrow> out m' ! j = out m ! j))"
proof -
  from vox_pcm_result [OF assms] obtain m' where
    "vox_pcm_to_float32 m n = Some m'" "samples m' = samples m"
    "length (out m') = length (out m)"
    "\<And>k. out m' ! k = (if k < nat (sint n) then pcm_sample (samples m ! k) else out m ! k)"
    by blast
  then have "\<exists>m'. vox_pcm_to_float32 m n = Some m' \<and> samples m' = samples m \<and>
               length (out m') = length (out m) \<and>
               (\<forall>j. nat (sint n) \<le> j \<longrightarrow> out m' ! j = out m ! j)"
    by auto
  then show ?thesis using rms_returns [OF assms(1)] by blast
qed

theorem buffers_frame_witness:
  "nat (sint (2 :: c_int)) \<le> length (samples \<lparr>samples = [16384, - 16384], out = [NaN, NaN, PosInf]\<rparr>) \<and>
   nat (sint (2 :: c_int)) \<le> length (out \<lparr>samples = [16384, - 16384], out = [NaN, NaN, PosInf]\<rparr>) \<and>
   (\<exists>r. vox_rms_int16 \<lparr>samples = [16384, - 16384], out = [NaN, NaN, PosInf]\<rparr> 2 =
         Some (r, \<lparr>samples = [16384, - 16384], out = [NaN, NaN, PosInf]\<rparr>)) \<and>
   (\<exists>m'. vox_pcm_to_float32 \<lparr>samples = [16384, - 16384], out = [NaN, NaN, PosInf]\<rparr> 2 = Some m' \<and>
         samples m' = [16384, - 16384] \<and> length (out m') = 3 \<and> out m' ! 2 = PosInf)"
proof -
  let ?m = "\<lparr>samples = [16384, - 16384], out = [NaN, NaN, PosInf]\<rparr>"
  have h: "nat (sint (2 :: c_int)) \<le> length (samples ?m)" "nat (sint (2 :: c_int)) \<le> length (out ?m)"
    by simp_all
  from buffers_frame [OF h] obtain r m' where
    "vox_rms_int16 ?m 2 = Some (r, ?m)" "vox_pcm_to_float32 ?m 2 = Some m'"
    "samples m' = samples ?m" "length (out m') = length (out ?m)"
    "\<And>j. nat (sint (2 :: c_int)) \<le> j \<Longrightarrow> out m' ! j = out ?m ! j"
    by blast
  moreover from this(5) [of 2] have "out m' ! 2 = PosInf" by simp
  ultimately show ?thesis using h by auto
qed

text \<open>
  C8. The result of \<^verbatim>\<open>vox_rms_int16\<close> is a function of the sample buffer and the count
  alone, and the memory it leaves is the memory it was given, so a second call returns
  the same value. The memory \<^verbatim>\<open>vox_pcm_to_float32\<close> leaves is a function of the two
  buffers and the count, and a second call on that memory leaves it unchanged.
\<close>

theorem calls_repeatable:
  assumes "nat (sint n) \<le> length (samples m)" "nat (sint n) \<le> length (out m)"
  shows "(\<exists>r. vox_rms_int16 m n = Some (r, m) \<and>
              (\<forall>m2. samples m2 = samples m \<longrightarrow> vox_rms_int16 m2 n = Some (r, m2))) \<and>
         (\<exists>m'. vox_pcm_to_float32 m n = Some m' \<and> vox_pcm_to_float32 m' n = Some m' \<and>
              (\<forall>m2. samples m2 = samples m \<and> out m2 = out m \<longrightarrow>
                    vox_pcm_to_float32 m2 n = Some m'))"
proof -
  have "\<exists>r. vox_rms_int16 m n = Some (r, m) \<and>
              (\<forall>m2. samples m2 = samples m \<longrightarrow> vox_rms_int16 m2 n = Some (r, m2))"
  proof (cases "sint n \<le> 0")
    case True
    then show ?thesis by (simp add: vox_rms_int16_def)
  next
    case False
    then show ?thesis using assms(1) by (simp add: vox_rms_int16_def rms_loop_foldl)
  qed
  moreover from pcm_twice [OF assms] obtain m' where
    "vox_pcm_to_float32 m n = Some m'" "vox_pcm_to_float32 m' n = Some m'" by blast
  moreover have "m2 = m" if "samples m2 = samples m \<and> out m2 = out m" for m2 :: mem
    using that by simp
  ultimately show ?thesis by metis
qed

theorem calls_repeatable_witness:
  "nat (sint (2 :: c_int)) \<le> length (samples \<lparr>samples = [16384, - 16384], out = [NaN, NaN]\<rparr>) \<and>
   nat (sint (2 :: c_int)) \<le> length (out \<lparr>samples = [16384, - 16384], out = [NaN, NaN]\<rparr>) \<and>
   (\<exists>r. vox_rms_int16 \<lparr>samples = [16384, - 16384], out = [NaN, NaN]\<rparr> 2 =
         Some (r, \<lparr>samples = [16384, - 16384], out = [NaN, NaN]\<rparr>) \<and>
       vox_rms_int16 \<lparr>samples = [16384, - 16384], out = [Fin 1]\<rparr> 2 =
         Some (r, \<lparr>samples = [16384, - 16384], out = [Fin 1]\<rparr>)) \<and>
   (\<exists>m'. vox_pcm_to_float32 \<lparr>samples = [16384, - 16384], out = [NaN, NaN]\<rparr> 2 = Some m' \<and>
         vox_pcm_to_float32 m' 2 = Some m')"
proof -
  let ?m = "\<lparr>samples = [16384, - 16384], out = [NaN, NaN]\<rparr>"
  let ?m2 = "\<lparr>samples = [16384, - 16384], out = [Fin 1]\<rparr>"
  have h: "nat (sint (2 :: c_int)) \<le> length (samples ?m)" "nat (sint (2 :: c_int)) \<le> length (out ?m)"
    by simp_all
  from calls_repeatable [OF h] obtain r m' where
    r: "vox_rms_int16 ?m 2 = Some (r, ?m)"
    "\<And>m2. samples m2 = samples ?m \<Longrightarrow> vox_rms_int16 m2 2 = Some (r, m2)"
    and p: "vox_pcm_to_float32 ?m 2 = Some m'" "vox_pcm_to_float32 m' 2 = Some m'"
    by blast
  from r(2) [of ?m2] have "vox_rms_int16 ?m2 2 = Some (r, ?m2)" by simp
  with r(1) p h show ?thesis by blast
qed

text \<open>
  C9. On a buffer holding at least \<open>n\<close> samples, the value \<^verbatim>\<open>vox_rms_int16\<close> returns
  is a finite number \<open>q \<ge> 0\<close>: it is neither a NaN nor an infinity nor negative, and
  \<open>0.0 <= q\<close> holds in C's comparison.
\<close>

theorem rms_nonneg:
  assumes "nat (sint n) \<le> length (samples m)"
  shows "\<exists>q. vox_rms_int16 m n = Some (Fin q, m) \<and> 0 \<le> q \<and> fp_le (Fin 0) (Fin q)"
  using rms_bounded [OF assms] by auto

theorem rms_nonneg_witness:
  "nat (sint (2 :: c_int)) \<le> length (samples \<lparr>samples = [- 32768, 32767], out = []\<rparr>) \<and>
   (\<exists>q. vox_rms_int16 \<lparr>samples = [- 32768, 32767], out = []\<rparr> 2 =
          Some (Fin q, \<lparr>samples = [- 32768, 32767], out = []\<rparr>) \<and>
        0 \<le> q \<and> fp_le (Fin 0) (Fin q))"
proof -
  let ?m = "\<lparr>samples = [- 32768, 32767], out = []\<rparr>"
  have h: "nat (sint (2 :: c_int)) \<le> length (samples ?m)" by simp
  from rms_nonneg [OF h] h show ?thesis by blast
qed

text \<open>
  C10. The conversion is monotone: of two samples of the buffer with \<open>S[i] \<le> S[j]\<close>,
  the value written for the first is at most the value written for the second.
\<close>

theorem pcm_monotone:
  assumes "nat (sint n) \<le> length (samples m)" "nat (sint n) \<le> length (out m)"
  shows "\<exists>m'. vox_pcm_to_float32 m n = Some m' \<and>
           (\<forall>i < nat (sint n). \<forall>j < nat (sint n).
              sint (samples m ! i) \<le> sint (samples m ! j) \<longrightarrow>
              fp_le (out m' ! i) (out m' ! j))"
proof -
  from vox_pcm_result [OF assms] obtain m' where
    "vox_pcm_to_float32 m n = Some m'"
    "\<And>k. out m' ! k = (if k < nat (sint n) then pcm_sample (samples m ! k) else out m ! k)"
    by blast
  then show ?thesis by (auto simp: pcm_sample_mono)
qed

theorem pcm_monotone_witness:
  "nat (sint (2 :: c_int)) \<le> length (samples \<lparr>samples = [- 5, 7], out = [NaN, NaN]\<rparr>) \<and>
   nat (sint (2 :: c_int)) \<le> length (out \<lparr>samples = [- 5, 7], out = [NaN, NaN]\<rparr>) \<and>
   sint (samples \<lparr>samples = [- 5, 7], out = [NaN, NaN]\<rparr> ! 0) \<le>
     sint (samples \<lparr>samples = [- 5, 7], out = [NaN, NaN]\<rparr> ! 1) \<and>
   (\<exists>m'. vox_pcm_to_float32 \<lparr>samples = [- 5, 7], out = [NaN, NaN]\<rparr> 2 = Some m' \<and>
         fp_le (out m' ! 0) (out m' ! 1))"
proof -
  let ?m = "\<lparr>samples = [- 5, 7], out = [NaN, NaN]\<rparr>"
  have h: "nat (sint (2 :: c_int)) \<le> length (samples ?m)" "nat (sint (2 :: c_int)) \<le> length (out ?m)"
    by simp_all
  have le: "sint (samples ?m ! 0) \<le> sint (samples ?m ! 1)" by simp
  from pcm_monotone [OF h] obtain m' where r: "vox_pcm_to_float32 ?m 2 = Some m'"
    and mono: "\<And>i j. i < 2 \<Longrightarrow> j < 2 \<Longrightarrow> sint (samples ?m ! i) \<le> sint (samples ?m ! j) \<Longrightarrow>
       fp_le (out m' ! i) (out m' ! j)"
    by auto
  from mono [of 0 1] le have "fp_le (out m' ! 0) (out m' ! 1)" by simp
  with r h le show ?thesis by blast
qed

end
